theory Spec2Isabelle
  imports Main "HOL-Library.Finite_Map" "HOL-Library.List_Lexorder" "HOL-Library.Char_ord"
begin

section \<open>Resumable sequential sampler (llm/datasets/sharded.py)\<close>

text \<open>
  \<^verbatim>\<open>ResumableSequentialSampler\<close> keeps three integer attributes. Python integers are
  unbounded, so they are \<^typ>\<open>int\<close>; \<^verbatim>\<open>len(data_source)\<close> is a length and is passed
  as a \<^typ>\<open>nat\<close>.
\<close>

record sampler =
  data_length :: int
  start_index :: int
  index :: int

definition sampler_init :: "nat \<Rightarrow> int \<Rightarrow> sampler" where
  "sampler_init data_source_len start =
     \<lparr>data_length = int data_source_len, start_index = start, index = start\<rparr>"

text \<open>
  \<^verbatim>\<open>__iter__\<close> is a generator: \<^verbatim>\<open>while self.index < self.data_length: yield self.index;
  self.index += 1\<close>. Run to exhaustion it yields a list of values and leaves the sampler
  in a final state; both are returned.
\<close>

function sampler_iter :: "sampler \<Rightarrow> int list \<times> sampler" where
  "sampler_iter s =
     (if index s < data_length s
      then (case sampler_iter (s\<lparr>index := index s + 1\<rparr>) of
              (ys, s') \<Rightarrow> (index s # ys, s'))
      else ([], s))"
  by pat_completeness auto
termination
  by (relation "measure (\<lambda>s. nat (data_length s - index s))") auto

declare sampler_iter.simps [simp del]

definition sampler_len :: "sampler \<Rightarrow> int" where
  "sampler_len s = data_length s - start_index s"

section \<open>Distributed sharded dataset (llm/datasets/sharded.py)\<close>

text \<open>
  Shard keys are Python strings, ordered lexicographically by \<^verbatim>\<open>sorted\<close>. The exceptions
  the class can raise are values of \<open>error\<close>: \<^verbatim>\<open>ValueError\<close> for a rejected
  configuration, \<^verbatim>\<open>IndexError\<close> for an index past the end, \<^verbatim>\<open>KeyError\<close> for a failed
  dictionary lookup and \<^verbatim>\<open>AssertionError\<close> for a failed \<^verbatim>\<open>assert\<close> or the explicit
  \<^verbatim>\<open>raise AssertionError\<close> at the end of the scan.
\<close>

type_synonym shard_key = string

datatype error = ValueError | IndexError | KeyError | AssertionError

text \<open>
  The attributes of a \<^verbatim>\<open>DistributedShardedDataset\<close>. \<open>shard_params\<close> is a dictionary,
  hence a finite map; the parameters of one shard have an arbitrary type \<open>'p\<close> and
  \<open>dataset_type\<close> constructs from them the shard, a sized, indexable collection of samples,
  here a list. \<open>load_log\<close> is not an attribute: it records, in order, the keys for which
  \<^verbatim>\<open>load_shard\<close> has constructed a shard, which is the effect of that call outside the
  object.
\<close>

record ('p, 'a) view =
  dataset_type :: "'p \<Rightarrow> 'a list"
  shard_params :: "(shard_key, 'p) fmap"
  rank :: int
  world_size :: int
  shuffle :: bool
  shard_keys :: "shard_key list"
  shard_indices :: "(shard_key, int \<times> int) fmap"
  total_samples :: int
  current_shard_key :: "shard_key option"
  current_shard :: "'a list option"
  load_log :: "shard_key list"

text \<open>
  \<^verbatim>\<open>load_shard\<close>: \<^verbatim>\<open>args, kwargs = self.shard_params[shard_key]; return
  self.dataset_type(*args, **kwargs)\<close>. It reads two attributes only, and
  \<^verbatim>\<open>__init__\<close> calls it before the others exist, so it takes those two and the log.
\<close>

definition load_shard ::
  "('p \<Rightarrow> 'a list) \<Rightarrow> (shard_key, 'p) fmap \<Rightarrow> shard_key \<Rightarrow> shard_key list
     \<Rightarrow> (error + 'a list) \<times> shard_key list" where
  "load_shard dt ps k lg =
     (case fmlookup ps k of
        None \<Rightarrow> (Inl KeyError, lg)
      | Some p \<Rightarrow> (Inr (dt p), lg @ [k]))"

text \<open>
  The loop of \<^verbatim>\<open>__init__\<close> over \<^verbatim>\<open>shard_keys\<close>, with its two variables
  \<^verbatim>\<open>shard_indices\<close> and \<^verbatim>\<open>index\<close>:
  \<^verbatim>\<open>shard_indices[shard_key] = (index, index + len(shard)); index += len(shard)\<close>.
\<close>

fun build_shard_indices ::
  "('p \<Rightarrow> 'a list) \<Rightarrow> (shard_key, 'p) fmap \<Rightarrow> shard_key list
     \<Rightarrow> (shard_key, int \<times> int) fmap \<Rightarrow> int \<Rightarrow> shard_key list
     \<Rightarrow> error + ((shard_key, int \<times> int) fmap \<times> int \<times> shard_key list)" where
  "build_shard_indices dt ps [] si idx lg = Inr (si, idx, lg)"
| "build_shard_indices dt ps (k # ks) si idx lg =
     (case load_shard dt ps k lg of
        (Inl e, lg') \<Rightarrow> Inl e
      | (Inr shard, lg') \<Rightarrow>
          build_shard_indices dt ps ks
            (fmupd k (idx, idx + int (length shard)) si) (idx + int (length shard)) lg')"

text \<open>
  \<^verbatim>\<open>__init__\<close>. \<^verbatim>\<open>random.shuffle\<close> under \<^verbatim>\<open>random.seed(seed)\<close> belongs to the Python
  library; it is the parameter \<open>random_shuffle\<close>, a function of the seed and the list.
  The checks come in the order of the source: the rank, the empty dictionary, then after
  the loop \<^verbatim>\<open>shard_keys[-1]\<close>, the lookup of the last key, and the two assertions.
  The guard on the rank leaves \<open>1 \<le> world_size\<close>, so \<^verbatim>\<open>%\<close> and \<^verbatim>\<open>//\<close> never divide by
  zero, and for a positive divisor they are \<open>mod\<close> and \<open>div\<close> on \<^typ>\<open>int\<close>.
\<close>

definition init ::
  "(int \<Rightarrow> shard_key list \<Rightarrow> shard_key list) \<Rightarrow> ('p \<Rightarrow> 'a list) \<Rightarrow> (shard_key, 'p) fmap
     \<Rightarrow> int \<Rightarrow> int \<Rightarrow> bool \<Rightarrow> int \<Rightarrow> error + ('p, 'a) view" where
  "init random_shuffle dt ps rnk ws shuf seed =
     (if \<not> (0 \<le> rnk \<and> rnk < ws) then Inl ValueError
      else if fcard (fmdom ps) = 0 then Inl ValueError
      else
        let sorted_keys = sorted_list_of_fset (fmdom ps);
            keys = (if shuf then random_shuffle seed sorted_keys else sorted_keys)
        in case build_shard_indices dt ps keys fmempty 0 [] of
             Inl e \<Rightarrow> Inl e
           | Inr (si, idx, lg) \<Rightarrow>
               if keys = [] then Inl IndexError
               else
                 let last_shard_key = last keys
                 in case fmlookup si last_shard_key of
                      None \<Rightarrow> Inl KeyError
                    | Some last_shard_indices \<Rightarrow>
                        let e = snd last_shard_indices - snd last_shard_indices mod ws;
                            si' = fmupd last_shard_key (fst last_shard_indices, e) si
                        in if \<not> (length keys = fcard (fmdom si')
                                   \<and> fcard (fmdom si') = fcard (fmdom ps))
                           then Inl AssertionError
                           else if \<not> (e div ws * ws = e) then Inl AssertionError
                           else Inr \<lparr>dataset_type = dt, shard_params = ps, rank = rnk,
                                     world_size = ws, shuffle = shuf, shard_keys = keys,
                                     shard_indices = si', total_samples = e,
                                     current_shard_key = None, current_shard = None,
                                     load_log = lg\<rparr>)"

definition len :: "('p, 'a) view \<Rightarrow> int" where
  "len v = total_samples v div world_size v"

definition rank_index_to_global_index :: "('p, 'a) view \<Rightarrow> int \<Rightarrow> int" where
  "rank_index_to_global_index v rank_index = len v * rank v + rank_index"

text \<open>
  The scan of \<^verbatim>\<open>rank_index_to_shard_index\<close> over \<^verbatim>\<open>self.shard_keys\<close>: the first key
  whose range holds the global index is returned with the offset in the shard; when the
  keys run out the method raises \<^verbatim>\<open>AssertionError\<close>.
\<close>

fun scan ::
  "(shard_key, int \<times> int) fmap \<Rightarrow> int \<Rightarrow> shard_key list \<Rightarrow> error + (shard_key \<times> int)" where
  "scan si g [] = Inl AssertionError"
| "scan si g (k # ks) =
     (case fmlookup si k of
        None \<Rightarrow> Inl KeyError
      | Some r \<Rightarrow> if fst r \<le> g \<and> g < snd r then Inr (k, g - fst r) else scan si g ks)"

definition rank_index_to_shard_index ::
  "('p, 'a) view \<Rightarrow> int \<Rightarrow> error + (shard_key \<times> int)" where
  "rank_index_to_shard_index v rank_index =
     scan (shard_indices v) (rank_index_to_global_index v rank_index) (shard_keys v)"

text \<open>
  \<^verbatim>\<open>self._current_shard[shard_index]\<close>: the shard answers for the offsets
  \<open>0 \<le> i < len(shard)\<close>; any other offset is an \<^verbatim>\<open>IndexError\<close> here.
\<close>

definition shard_getitem :: "'a list \<Rightarrow> int \<Rightarrow> error + 'a" where
  "shard_getitem xs i =
     (if 0 \<le> i \<and> i < int (length xs) then Inr (xs ! nat i) else Inl IndexError)"

text \<open>
  The cache block of \<^verbatim>\<open>__getitem__\<close>: when the cell is empty or holds another key,
  \<^verbatim>\<open>_current_shard_key\<close> is assigned first and \<^verbatim>\<open>load_shard\<close> is called after, so a
  failing load leaves the new key with the old content.
\<close>

definition switch_shard :: "('p, 'a) view \<Rightarrow> shard_key \<Rightarrow> (error + unit) \<times> ('p, 'a) view" where
  "switch_shard v k =
     (if current_shard_key v = None \<or> current_shard_key v \<noteq> Some k
      then (case load_shard (dataset_type v) (shard_params v) k (load_log v) of
              (Inl e, lg) \<Rightarrow> (Inl e, v\<lparr>current_shard_key := Some k, load_log := lg\<rparr>)
            | (Inr shard, lg) \<Rightarrow>
                (Inr (), v\<lparr>current_shard_key := Some k, current_shard := Some shard,
                           load_log := lg\<rparr>))
      else (Inr (), v))"

definition getitem :: "('p, 'a) view \<Rightarrow> int \<Rightarrow> (error + 'a) \<times> ('p, 'a) view" where
  "getitem v rank_index =
     (if rank_index \<ge> len v then (Inl IndexError, v)
      else case rank_index_to_shard_index v rank_index of
             Inl e \<Rightarrow> (Inl e, v)
           | Inr (k, shard_index) \<Rightarrow>
               (case switch_shard v k of
                  (Inl e, v') \<Rightarrow> (Inl e, v')
                | (Inr _, v') \<Rightarrow>
                    (case current_shard v' of
                       None \<Rightarrow> (Inl AssertionError, v')
                     | Some shard \<Rightarrow> (shard_getitem shard shard_index, v'))))"

text \<open>A caller making one \<^verbatim>\<open>__getitem__\<close> call after another on the same view.\<close>

fun getitems :: "('p, 'a) view \<Rightarrow> int list \<Rightarrow> (error + 'a) list \<times> ('p, 'a) view" where
  "getitems v [] = ([], v)"
| "getitems v (i # is) =
     (case getitem v i of
        (r, v') \<Rightarrow> (case getitems v' is of (rs, v'') \<Rightarrow> (r # rs, v'')))"

definition shard_content :: "('p \<Rightarrow> 'a list) \<Rightarrow> (shard_key, 'p) fmap \<Rightarrow> shard_key \<Rightarrow> 'a list" where
  "shard_content dt ps k = (case fmlookup ps k of None \<Rightarrow> [] | Some p \<Rightarrow> dt p)"

definition shard_size :: "('p \<Rightarrow> 'a list) \<Rightarrow> (shard_key, 'p) fmap \<Rightarrow> shard_key \<Rightarrow> int" where
  "shard_size dt ps k = int (length (shard_content dt ps k))"

definition offset_of :: "('p, 'a) view \<Rightarrow> nat \<Rightarrow> int" where
  "offset_of v i =
     sum_list (map (shard_size (dataset_type v) (shard_params v)) (take i (shard_keys v)))"

definition raw_total :: "('p, 'a) view \<Rightarrow> int" where
  "raw_total v = sum_list (map (shard_size (dataset_type v) (shard_params v)) (shard_keys v))"

definition truncated_total :: "('p, 'a) view \<Rightarrow> int" where
  "truncated_total v = raw_total v - raw_total v mod world_size v"

definition expected_range :: "('p, 'a) view \<Rightarrow> nat \<Rightarrow> int \<times> int" where
  "expected_range v i =
     (offset_of v i,
      if Suc i = length (shard_keys v) then truncated_total v else offset_of v (Suc i))"

definition index_inv :: "('p, 'a) view \<Rightarrow> bool" where
  "index_inv v \<longleftrightarrow>
     0 \<le> rank v \<and> rank v < world_size v
     \<and> shard_keys v \<noteq> [] \<and> distinct (shard_keys v)
     \<and> set (shard_keys v) = fset (fmdom (shard_params v))
     \<and> (\<forall>i < length (shard_keys v).
          fmlookup (shard_indices v) (shard_keys v ! i) = Some (expected_range v i))
     \<and> total_samples v = truncated_total v"

section \<open>Properties of the sampler\<close>

lemma sampler_iter_upto:
  "fst (sampler_iter s) = [index s .. data_length s - 1]"
proof (induction s rule: sampler_iter.induct)
  case (1 s)
  show ?case
  proof (cases "index s < data_length s")
    case True
    have "fst (sampler_iter s) = index s # fst (sampler_iter (s\<lparr>index := index s + 1\<rparr>))"
      using True by (subst sampler_iter.simps) (simp split: prod.splits)
    also have "\<dots> = index s # [index s + 1 .. data_length s - 1]"
      using "1.IH" [OF True] by simp
    also have "\<dots> = [index s .. data_length s - 1]"
      using True by (simp add: upto_rec1)
    finally show ?thesis .
  next
    case False
    then show ?thesis
      by (subst sampler_iter.simps) simp
  qed
qed

lemma upto_drop: "0 \<le> v \<Longrightarrow> drop (nat v) [0 .. n] = [v .. n]"
proof (induction "nat v" arbitrary: v)
  case 0
  then show ?case by simp
next
  case (Suc k)
  then have k: "k = nat (v - 1)" and v1: "0 \<le> v - 1" by linarith+
  have "drop (nat v) [0 .. n] = drop 1 (drop (nat (v - 1)) [0 .. n])"
    using Suc.hyps(2) k by (metis drop_drop plus_1_eq_Suc)
  also have "\<dots> = drop 1 [v - 1 .. n]"
    using Suc.hyps(1) [OF k v1] by simp
  also have "\<dots> = [v .. n]"
  proof (cases "v - 1 \<le> n")
    case True
    then show ?thesis by (simp add: upto_rec1)
  next
    case False
    then show ?thesis by simp
  qed
  finally show ?case .
qed

text \<open>
  C7. For every length \<open>n\<close> and every start index \<open>v\<close> with \<open>0 \<le> v \<le> n\<close>, the sampler
  built with \<open>start_index = v\<close> yields exactly \<open>v, v+1, \<dots>, n-1\<close>, strictly ascending; this
  is the part of the output of a sampler started at 0 that remains after its first \<open>v\<close>
  values; and \<^verbatim>\<open>__len__\<close> is \<open>n - v\<close>.
\<close>

theorem sampler_resume:
  assumes "0 \<le> v" and "v \<le> int n"
  shows "fst (sampler_iter (sampler_init n v)) = [v .. int n - 1]
       \<and> fst (sampler_iter (sampler_init n v))
           = drop (nat v) (fst (sampler_iter (sampler_init n 0)))
       \<and> sorted_wrt (<) (fst (sampler_iter (sampler_init n v)))
       \<and> sampler_len (sampler_init n v) = int n - v"
proof -
  have a: "fst (sampler_iter (sampler_init n v)) = [v .. int n - 1]"
    by (simp add: sampler_iter_upto sampler_init_def)
  have b: "fst (sampler_iter (sampler_init n 0)) = [0 .. int n - 1]"
    by (simp add: sampler_iter_upto sampler_init_def)
  have c: "sorted_wrt (<) [v .. int n - 1]"
    by simp
  show ?thesis
    using a b c upto_drop [OF assms(1), of "int n - 1"]
    by (simp add: sampler_len_def sampler_init_def)
qed

theorem sampler_resume_witness:
  "(0::int) \<le> 2 \<and> 2 \<le> int 5
   \<and> fst (sampler_iter (sampler_init 5 2)) = [2, 3, 4]
   \<and> drop (nat 2) (fst (sampler_iter (sampler_init 5 0))) = [2, 3, 4]
   \<and> sampler_len (sampler_init 5 2) = 3"
proof -
  have h1: "(0::int) \<le> 2" and h2: "(2::int) \<le> int 5" by simp_all
  have u: "[2 .. int 5 - 1] = [2, 3, 4]" by (simp add: upto_rec1)
  have l: "int 5 - 2 = 3" by simp
  note r = sampler_resume [OF h1 h2, unfolded u l]
  from r have a: "fst (sampler_iter (sampler_init 5 2)) = [2, 3, 4]" by (rule conjunct1)
  from r have b: "fst (sampler_iter (sampler_init 5 2))
      = drop (nat 2) (fst (sampler_iter (sampler_init 5 0)))"
    by (rule conjunct1 [OF conjunct2])
  from r have d: "sampler_len (sampler_init 5 2) = 3" by blast
  show ?thesis
    using h1 h2 a b [unfolded a, symmetric] d by blast
qed

lemma load_shard_Inr:
  "load_shard dt ps k lg = (Inr sh, lg') \<Longrightarrow>
     k |\<in>| fmdom ps \<and> sh = shard_content dt ps k \<and> lg' = lg @ [k]"
  by (auto simp: load_shard_def shard_content_def fmlookup_dom_iff split: option.splits)

lemma load_shard_dom:
  "k |\<in>| fmdom ps \<Longrightarrow> load_shard dt ps k lg = (Inr (shard_content dt ps k), lg @ [k])"
  by (auto simp: load_shard_def shard_content_def fmlookup_dom_iff)

lemma build_step:
  assumes "build_shard_indices dt ps (k # ks) si idx lg = Inr res"
  shows "k |\<in>| fmdom ps \<and>
         build_shard_indices dt ps ks (fmupd k (idx, idx + shard_size dt ps k) si)
           (idx + shard_size dt ps k) (lg @ [k]) = Inr res"
proof -
  obtain r lg' where l: "load_shard dt ps k lg = (r, lg')" by (cases "load_shard dt ps k lg")
  with assms obtain sh where r: "r = Inr sh" by (cases r) auto
  from load_shard_Inr [OF l [unfolded r]] assms l r show ?thesis
    by (simp add: shard_size_def)
qed

lemma build_result:
  assumes "build_shard_indices dt ps ks si idx lg = Inr (si', idx', lg')"
  shows "lg' = lg @ ks
       \<and> idx' = idx + sum_list (map (shard_size dt ps) ks)
       \<and> fmdom si' = fmdom si |\<union>| fset_of_list ks
       \<and> (\<forall>k\<in>set ks. k |\<in>| fmdom ps)
       \<and> (\<forall>k. k \<notin> set ks \<longrightarrow> fmlookup si' k = fmlookup si k)"
  using assms
proof (induction ks arbitrary: si idx lg)
  case Nil
  then show ?case by simp
next
  case (Cons k ks)
  from build_step [OF Cons.prems] have kd: "k |\<in>| fmdom ps"
    and b: "build_shard_indices dt ps ks (fmupd k (idx, idx + shard_size dt ps k) si)
           (idx + shard_size dt ps k) (lg @ [k]) = Inr (si', idx', lg')" by simp_all
  from Cons.IH [OF b] kd show ?case by auto
qed

lemma build_lookup:
  assumes "build_shard_indices dt ps ks si idx lg = Inr (si', idx', lg')"
    and "distinct ks" and "i < length ks"
  shows "fmlookup si' (ks ! i) =
           Some (idx + sum_list (map (shard_size dt ps) (take i ks)),
                 idx + sum_list (map (shard_size dt ps) (take (Suc i) ks)))"
  using assms
proof (induction ks arbitrary: si idx lg i)
  case Nil
  then show ?case by simp
next
  case (Cons k ks)
  from build_step [OF Cons.prems(1)] have
    b: "build_shard_indices dt ps ks (fmupd k (idx, idx + shard_size dt ps k) si)
           (idx + shard_size dt ps k) (lg @ [k]) = Inr (si', idx', lg')" by simp
  show ?case
  proof (cases i)
    case 0
    from Cons.prems(2) have "k \<notin> set ks" by simp
    with build_result [OF b] have "fmlookup si' k = Some (idx, idx + shard_size dt ps k)"
      by simp
    with 0 show ?thesis by simp
  next
    case (Suc j)
    with Cons.prems have "distinct ks" "j < length ks" by simp_all
    from Cons.IH [OF b this] Suc show ?thesis by (simp add: add.assoc)
  qed
qed

lemma build_succeeds:
  "\<forall>k\<in>set ks. k |\<in>| fmdom ps \<Longrightarrow> \<exists>res. build_shard_indices dt ps ks si idx lg = Inr res"
proof (induction ks arbitrary: si idx lg)
  case Nil
  then show ?case by simp
next
  case (Cons k ks)
  then show ?case by (simp add: load_shard_dom)
qed

lemma init_Inr:
  assumes "init rs dt ps rnk ws shuf seed = Inr v"
  shows "index_inv v \<and> dataset_type v = dt \<and> shard_params v = ps \<and> rank v = rnk
       \<and> world_size v = ws \<and> shuffle v = shuf
       \<and> shard_keys v = (if shuf then rs seed (sorted_list_of_fset (fmdom ps))
                          else sorted_list_of_fset (fmdom ps))
       \<and> current_shard_key v = None \<and> current_shard v = None
       \<and> load_log v = shard_keys v"
proof -
  define keys where "keys = (if shuf then rs seed (sorted_list_of_fset (fmdom ps))
                          else sorted_list_of_fset (fmdom ps))"
  define sz where "sz = shard_size dt ps"
  note A = assms [unfolded init_def Let_def, folded keys_def]
  have rk: "0 \<le> rnk \<and> rnk < ws"
    using A by (cases "0 \<le> rnk \<and> rnk < ws") simp_all
  have nz: "fcard (fmdom ps) \<noteq> 0"
    using A rk by (cases "fcard (fmdom ps) = 0") simp_all
  obtain si idx lg where
    b: "build_shard_indices dt ps keys fmempty 0 [] = Inr (si, idx, lg)"
  proof (cases "build_shard_indices dt ps keys fmempty 0 []")
    case (Inl e)
    with A rk nz show ?thesis by simp
  next
    case (Inr res)
    with that show ?thesis by (cases res) simp
  qed
  have ne: "keys \<noteq> []"
    using A rk nz b by (cases "keys = []") simp_all
  obtain lsi where l: "fmlookup si (last keys) = Some lsi"
  proof (cases "fmlookup si (last keys)")
    case None
    with A rk nz b ne show ?thesis by simp
  next
    case (Some r)
    with that show ?thesis by simp
  qed
  define e where "e = snd lsi - snd lsi mod ws"
  define si' where "si' = fmupd (last keys) (fst lsi, e) si"
  have B: "(if \<not> (length keys = fcard (fmdom si') \<and> fcard (fmdom si') = fcard (fmdom ps))
            then Inl AssertionError
            else if \<not> (e div ws * ws = e) then Inl AssertionError
            else Inr \<lparr>dataset_type = dt, shard_params = ps, rank = rnk,
                world_size = ws, shuffle = shuf, shard_keys = keys,
                shard_indices = si', total_samples = e,
                current_shard_key = None, current_shard = None, load_log = lg\<rparr>) = Inr v"
    using A unfolding e_def si'_def
    by (simp only: rk nz b ne l simp_thms if_True if_False sum.case prod.case option.case)
  have a12: "length keys = fcard (fmdom si') \<and> fcard (fmdom si') = fcard (fmdom ps)"
    using B
    by (cases "length keys = fcard (fmdom si') \<and> fcard (fmdom si') = fcard (fmdom ps)")
       simp_all
  then have a1: "length keys = fcard (fmdom si')"
    and a2: "fcard (fmdom si') = fcard (fmdom ps)" by simp_all
  have a3: "e div ws * ws = e"
    using B a12 by (cases "e div ws * ws = e") simp_all
  have v: "v = \<lparr>dataset_type = dt, shard_params = ps, rank = rnk,
                world_size = ws, shuffle = shuf, shard_keys = keys,
                shard_indices = si', total_samples = e,
                current_shard_key = None, current_shard = None, load_log = lg\<rparr>"
    using B a12 a3 by simp
  from build_result [OF b] have
    lg: "lg = keys" and idx: "idx = sum_list (map sz keys)"
    and dom: "fmdom si = fset_of_list keys"
    and sub: "\<forall>k\<in>set keys. k |\<in>| fmdom ps"
    by (simp_all add: sz_def)
  from ne have lk: "last keys \<in> set keys" by simp
  then have "last keys |\<in>| fset_of_list keys"
    by (simp only: fset_of_list_elem)
  then have dom': "fmdom si' = fset_of_list keys"
    unfolding si'_def by (simp only: fmdom_fmupd dom finsert_absorb)
  from a1 dom' have "card (set keys) = length keys"
    by (simp add: fcard.rep_eq fset_of_list.rep_eq)
  then have dist: "distinct keys" by (rule card_distinct)
  have "fset_of_list keys |\<subseteq>| fmdom ps"
  proof (rule fsubsetI)
    fix k assume "k |\<in>| fset_of_list keys"
    then have "k \<in> set keys" by (simp only: fset_of_list_elem)
    with sub show "k |\<in>| fmdom ps" by blast
  qed
  moreover have "fcard (fmdom ps) \<le> fcard (fset_of_list keys)"
    using a2 dom' by simp
  ultimately have "fset_of_list keys = fmdom ps" by (rule fcard_seteq)
  then have seteq: "set keys = fset (fmdom ps)"
    by (metis fset_of_list.rep_eq)
  have lsi: "lsi = (sum_list (map sz (butlast keys)), sum_list (map sz keys))"
  proof -
    from ne have i: "length keys - 1 < length keys" by simp
    from build_lookup [OF b dist i] ne l show ?thesis
      by (simp add: last_conv_nth sz_def butlast_conv_take)
  qed
  have e: "e = sum_list (map sz keys) - sum_list (map sz keys) mod ws"
    by (simp add: e_def lsi)
  have look: "fmlookup si' (keys ! i) =
      Some (sum_list (map sz (take i keys)),
            if Suc i = length keys then e else sum_list (map sz (take (Suc i) keys)))"
    if i: "i < length keys" for i
  proof (cases "Suc i = length keys")
    case True
    then have il: "i = length keys - 1" by simp
    then have "keys ! i = last keys" using ne by (simp add: last_conv_nth)
    moreover from il have "take i keys = butlast keys" by (simp add: butlast_conv_take)
    ultimately show ?thesis using True by (simp add: si'_def lsi)
  next
    case False
    have "keys ! i \<noteq> last keys"
    proof
      assume "keys ! i = last keys"
      then have "keys ! i = keys ! (length keys - 1)" using ne by (simp add: last_conv_nth)
      with dist i ne have "i = length keys - 1" by (simp add: nth_eq_iff_index_eq)
      with False i show False by simp
    qed
    with build_lookup [OF b dist i] False show ?thesis
      by (simp add: si'_def sz_def)
  qed
  have "index_inv v"
    unfolding index_inv_def
    using rk ne dist seteq look e
    by (simp add: v expected_range_def offset_of_def truncated_total_def raw_total_def sz_def)
  then show ?thesis
    by (simp add: v lg keys_def)
qed

lemma scan_Inr:
  "scan si g ks = Inr (k, off) \<Longrightarrow>
     k \<in> set ks \<and> (\<exists>s e. fmlookup si k = Some (s, e) \<and> s \<le> g \<and> g < e \<and> off = g - s)"
proof (induction ks)
  case Nil
  then show ?case by simp
next
  case (Cons a ks)
  from Cons.prems obtain r where r: "fmlookup si a = Some r"
    by (cases "fmlookup si a") simp_all
  show ?case
  proof (cases "fst r \<le> g \<and> g < snd r")
    case True
    with Cons.prems r have "k = a" "off = g - fst r" by simp_all
    with True r show ?thesis by (cases r) simp
  next
    case False
    with Cons.prems r have "scan si g ks = Inr (k, off)" by auto
    from Cons.IH [OF this] show ?thesis by simp
  qed
qed

lemma scan_finds:
  assumes "\<forall>k\<in>set ks. fmlookup si k \<noteq> None"
    and "\<exists>k\<in>set ks. \<exists>s e. fmlookup si k = Some (s, e) \<and> s \<le> g \<and> g < e"
  shows "\<exists>k off. scan si g ks = Inr (k, off)"
  using assms
proof (induction ks)
  case Nil
  then show ?case by simp
next
  case (Cons a ks)
  from Cons.prems(1) obtain r where r: "fmlookup si a = Some r" by auto
  show ?case
  proof (cases "fst r \<le> g \<and> g < snd r")
    case True
    with r show ?thesis by simp
  next
    case False
    with Cons.prems(2) r have "\<exists>k\<in>set ks. \<exists>s e. fmlookup si k = Some (s, e) \<and> s \<le> g \<and> g < e"
      by auto
    moreover from Cons.prems(1) have "\<forall>k\<in>set ks. fmlookup si k \<noteq> None" by simp
    ultimately have "\<exists>k off. scan si g ks = Inr (k, off)" by (rule Cons.IH [rotated])
    with r False show ?thesis by auto
  qed
qed

lemma shard_size_nonneg: "0 \<le> shard_size dt ps k"
  by (simp add: shard_size_def)

lemma sum_sizes_nonneg: "0 \<le> sum_list (map (shard_size dt ps) ks)"
  by (induction ks) (simp_all add: shard_size_nonneg)

lemma offset_of_0: "offset_of v 0 = 0"
  by (simp add: offset_of_def)

lemma offset_of_Suc:
  "i < length (shard_keys v) \<Longrightarrow>
     offset_of v (Suc i) =
       offset_of v i + shard_size (dataset_type v) (shard_params v) (shard_keys v ! i)"
  by (simp add: offset_of_def take_Suc_conv_app_nth)

lemma offset_of_all: "offset_of v (length (shard_keys v)) = raw_total v"
  by (simp add: offset_of_def raw_total_def)

lemma offset_of_mono_Suc:
  "offset_of v i \<le> offset_of v (Suc i)"
proof (cases "i < length (shard_keys v)")
  case True
  then show ?thesis by (simp add: offset_of_Suc shard_size_nonneg)
next
  case False
  then show ?thesis by (simp add: offset_of_def)
qed

lemma offset_of_mono: "i \<le> j \<Longrightarrow> offset_of v i \<le> offset_of v j"
proof (induction j)
  case 0
  then show ?case by simp
next
  case (Suc j)
  show ?case
  proof (cases "i = Suc j")
    case True
    then show ?thesis by simp
  next
    case False
    with Suc.prems have "i \<le> j" by simp
    from Suc.IH [OF this] offset_of_mono_Suc [of v j] show ?thesis by linarith
  qed
qed

lemma offset_of_nonneg: "0 \<le> offset_of v i"
  using offset_of_mono [of 0 i v] by (simp add: offset_of_0)

lemma raw_total_nonneg: "0 \<le> raw_total v"
  by (simp add: raw_total_def sum_sizes_nonneg)

lemma truncated_total_bounds:
  assumes "1 \<le> world_size v"
  shows "0 \<le> truncated_total v" and "truncated_total v \<le> raw_total v"
    and "truncated_total v mod world_size v = 0"
    and "truncated_total v div world_size v * world_size v = truncated_total v"
proof -
  let ?r = "raw_total v" and ?w = "world_size v"
  from assms have w: "0 < ?w" by simp
  have m: "0 \<le> ?r mod ?w" using w by simp
  have m2: "?r mod ?w \<le> ?r"
    using raw_total_nonneg [of v] w by (simp add: zmod_le_nonneg_dividend)
  from m2 show "0 \<le> truncated_total v" by (simp add: truncated_total_def)
  from m show "truncated_total v \<le> raw_total v" by (simp add: truncated_total_def)
  show z: "truncated_total v mod world_size v = 0"
    by (simp add: truncated_total_def minus_mod_eq_mult_div)
  then show "truncated_total v div world_size v * world_size v = truncated_total v"
    by (simp add: mod_0_imp_dvd)
qed

end
